theory Spec2Isabelle
  imports Main "HOL-Library.Word"
begin

section \<open>The circular audio buffer of the drawing-canvas programs (A9)\<close>

text \<open>
  The two A9 programs share one byte ring between the decoder thread
  (\<^verbatim>\<open>write_to_buffer\<close>) and the playback thread (\<^verbatim>\<open>read_from_buffer\<close>).
  The macro \<^verbatim>\<open>BUFFER_SIZE\<close> is 32768 in the GTK4 program and 16384 in the GTK3
  program; the functions below take the capacity as their first argument \<open>C\<close>, so
  that one embedding covers both and can be run on small capacities.

  \<^verbatim>\<open>size_t\<close> values are natural numbers. The three subtractions of the source whose
  left operand can be the smaller one (\<^verbatim>\<open>BUFFER_SIZE - buffer->size\<close>,
  \<^verbatim>\<open>BUFFER_SIZE - buffer->write_pos\<close>, \<^verbatim>\<open>BUFFER_SIZE - buffer->read_pos\<close>) wrap
  modulo \<open>2 ^ 64\<close> as unsigned arithmetic does. Every other difference of the source is
  guarded by the comparison that precedes it, and every sum stays below the length of an
  addressable object.
\<close>

type_synonym uint8_t = "8 word"

definition BUFFER_SIZE :: nat where
  "BUFFER_SIZE = 32768"

definition BUFFER_SIZE_gtk3 :: nat where
  "BUFFER_SIZE_gtk3 = 16384"

definition size_t_sub :: "nat \<Rightarrow> nat \<Rightarrow> nat" where
  "size_t_sub a b = (if b \<le> a then a - b else a + 2 ^ 64 - b)"

text \<open>
  The function results are declared \<^verbatim>\<open>int\<close> and return a \<^verbatim>\<open>size_t\<close> counter; the
  conversion keeps the low 32 bits, read as two's complement. The results below carry
  the counter itself.
\<close>

definition int_of_size_t :: "nat \<Rightarrow> int" where
  "int_of_size_t n = sint (word_of_nat n :: 32 word)"

record CircularBuffer =
  data :: "uint8_t list"
  read_pos :: nat
  write_pos :: nat
  size_cb :: nat

text \<open>
  The two volatile globals. One value of each is seen during an uninterrupted run of a
  loop; they may change while the thread waits on a condition variable.
\<close>

record flags =
  keep_running :: bool
  is_audio_playing :: bool

text \<open>The globals of the program that the audio functions touch.\<close>

record globals = flags +
  audio_buffer :: CircularBuffer

definition init_circular_buffer :: "CircularBuffer \<Rightarrow> CircularBuffer" where
  "init_circular_buffer buffer = buffer\<lparr>read_pos := 0, write_pos := 0, size_cb := 0\<rparr>"

subsection \<open>Memory copies\<close>

text \<open>
  \<^verbatim>\<open>memcpy(dst + doff, src + soff, n)\<close> and \<^verbatim>\<open>memset(dst + off, v, n)\<close> on arrays of
  known length. An access past the end of either array is undefined in C; here it is the
  result \<open>None\<close>.
\<close>

definition memcpy :: "'a list \<Rightarrow> nat \<Rightarrow> 'a list \<Rightarrow> nat \<Rightarrow> nat \<Rightarrow> 'a list option" where
  "memcpy dst doff src soff n =
     (if doff + n \<le> length dst \<and> soff + n \<le> length src
      then Some (take doff dst @ take n (drop soff src) @ drop (doff + n) dst)
      else None)"

definition memset :: "'a list \<Rightarrow> nat \<Rightarrow> 'a \<Rightarrow> nat \<Rightarrow> 'a list option" where
  "memset dst off v n =
     (if off + n \<le> length dst
      then Some (take off dst @ replicate n v @ drop (off + n) dst)
      else None)"

text \<open>
  The wrap-around branch that both loops contain: the segments to copy, each as (offset
  in the ring, offset in the caller's run, length), and the position after the
  transfer.
\<close>

definition wrap_copy :: "nat \<Rightarrow> nat \<Rightarrow> nat \<Rightarrow> (nat \<times> nat \<times> nat) list \<times> nat" where
  "wrap_copy C pos n =
     (let first_chunk = size_t_sub C pos in
      if n \<le> first_chunk
      then ([(pos, 0, n)], (pos + n) mod C)
      else ([(pos, 0, first_chunk), (0, first_chunk, n - first_chunk)], n - first_chunk))"

fun store_segments ::
  "uint8_t list \<Rightarrow> uint8_t list \<Rightarrow> nat \<Rightarrow> (nat \<times> nat \<times> nat) list \<Rightarrow> uint8_t list option" where
  "store_segments ring src base [] = Some ring"
| "store_segments ring src base ((pos, off, n) # segs) =
     (case memcpy ring pos src (base + off) n of
        None \<Rightarrow> None
      | Some ring' \<Rightarrow> store_segments ring' src base segs)"

fun load_segments ::
  "uint8_t list \<Rightarrow> nat \<Rightarrow> uint8_t list \<Rightarrow> (nat \<times> nat \<times> nat) list \<Rightarrow> uint8_t list option" where
  "load_segments dst base ring [] = Some dst"
| "load_segments dst base ring ((pos, off, n) # segs) =
     (case memcpy dst (base + off) ring pos n of
        None \<Rightarrow> None
      | Some dst' \<Rightarrow> load_segments dst' base ring segs)"

subsection \<open>write_to_buffer\<close>

text \<open>
  A call either returns (\<open>Written\<close>, with the buffer and the byte count), or is parked
  in \<^verbatim>\<open>pthread_cond_wait(&buffer->not_full, ...)\<close> (\<open>Write_blocked\<close>, with the buffer
  and the bytes written so far), or has copied out of bounds (\<open>Write_fault\<close>). A parked
  call continues with \<open>write_loop\<close> on the buffer and the flags it finds when it wakes.
  The mutex is held from the lock to the wait or the unlock, so each such run is one step
  for the other thread. The signal sent after a copy (\<^verbatim>\<open>not_empty\<close> by a write,
  \<^verbatim>\<open>not_full\<close> by a read) changes no data and is not part of the result.
\<close>

datatype write_result =
  Written CircularBuffer nat
| Write_blocked CircularBuffer nat
| Write_fault

function write_loop ::
  "nat \<Rightarrow> 'a flags_scheme \<Rightarrow> CircularBuffer \<Rightarrow> uint8_t list \<Rightarrow> nat \<Rightarrow> nat \<Rightarrow> write_result" where
  "write_loop C fl buffer src sz bytes_written =
     (if bytes_written < sz \<and> keep_running fl then
        (let available = size_t_sub C (size_cb buffer) in
         if available = 0 then Write_blocked buffer bytes_written
         else
           (let to_write = (if sz - bytes_written < available then sz - bytes_written
                            else available);
                (segs, new_pos) = wrap_copy C (write_pos buffer) to_write
            in case store_segments (data buffer) src bytes_written segs of
                 None \<Rightarrow> Write_fault
               | Some ring \<Rightarrow>
                   write_loop C fl
                     (buffer\<lparr>data := ring, write_pos := new_pos,
                              size_cb := size_cb buffer + to_write\<rparr>)
                     src sz (bytes_written + to_write)))
      else Written buffer bytes_written)"
  by pat_completeness auto
termination
  by (relation "measure (\<lambda>(C, fl, buffer, src, sz, bytes_written). sz - bytes_written)")
     (auto split: if_splits)

definition write_to_buffer ::
  "nat \<Rightarrow> 'a flags_scheme \<Rightarrow> CircularBuffer \<Rightarrow> uint8_t list \<Rightarrow> nat \<Rightarrow> write_result" where
  "write_to_buffer C fl buffer src sz = write_loop C fl buffer src sz 0"

subsection \<open>read_from_buffer\<close>

text \<open>
  A call either returns (\<open>Read_done\<close>, with the buffer, the caller's array and the
  byte count), or is parked on \<^verbatim>\<open>not_empty\<close> (\<open>Read_waiting\<close>), or has copied or
  filled out of bounds (\<open>Read_fault\<close>).
\<close>

datatype read_result =
  Read_done CircularBuffer "uint8_t list" nat
| Read_waiting CircularBuffer "uint8_t list" nat
| Read_fault

text \<open>The GTK4 program: silence when not playing, a timed wait otherwise.\<close>

function read_loop ::
  "nat \<Rightarrow> 'a flags_scheme \<Rightarrow> CircularBuffer \<Rightarrow> uint8_t list \<Rightarrow> nat \<Rightarrow> nat \<Rightarrow> read_result" where
  "read_loop C fl buffer dst sz bytes_read =
     (if bytes_read < sz \<and> keep_running fl then
        (if size_cb buffer = 0 then
           (if \<not> keep_running fl \<or> \<not> is_audio_playing fl then
              (case memset dst bytes_read 0 (sz - bytes_read) of
                 None \<Rightarrow> Read_fault
               | Some dst' \<Rightarrow> Read_done buffer dst' sz)
            else Read_waiting buffer dst bytes_read)
         else
           (let to_read = (if sz - bytes_read < size_cb buffer then sz - bytes_read
                           else size_cb buffer);
                (segs, new_pos) = wrap_copy C (read_pos buffer) to_read
            in case load_segments dst bytes_read (data buffer) segs of
                 None \<Rightarrow> Read_fault
               | Some dst' \<Rightarrow>
                   read_loop C fl
                     (buffer\<lparr>read_pos := new_pos, size_cb := size_cb buffer - to_read\<rparr>)
                     dst' sz (bytes_read + to_read)))
      else Read_done buffer dst bytes_read)"
  by pat_completeness auto
termination
  by (relation "measure (\<lambda>(C, fl, buffer, dst, sz, bytes_read). sz - bytes_read)")
     (auto split: if_splits)

definition read_from_buffer ::
  "nat \<Rightarrow> 'a flags_scheme \<Rightarrow> CircularBuffer \<Rightarrow> uint8_t list \<Rightarrow> nat \<Rightarrow> read_result" where
  "read_from_buffer C fl buffer dst sz = read_loop C fl buffer dst sz 0"

text \<open>
  What a call parked in \<^verbatim>\<open>pthread_cond_timedwait\<close> does when the wait ends, on the
  buffer and the flags it finds then: after \<^verbatim>\<open>ETIMEDOUT\<close> it writes
  \<^verbatim>\<open>size / 10\<close> zero bytes, and in both cases it goes round the loop again.
\<close>

definition read_wakeup ::
  "nat \<Rightarrow> 'a flags_scheme \<Rightarrow> bool \<Rightarrow> CircularBuffer \<Rightarrow> uint8_t list \<Rightarrow> nat \<Rightarrow> nat \<Rightarrow> read_result" where
  "read_wakeup C fl timed_out buffer dst sz bytes_read =
     (if timed_out then
        (let silence_size = sz div 10 in
         if silence_size > 0 then
           (case memset dst bytes_read 0 silence_size of
              None \<Rightarrow> Read_fault
            | Some dst' \<Rightarrow> read_loop C fl buffer dst' sz (bytes_read + silence_size))
         else read_loop C fl buffer dst sz bytes_read)
      else read_loop C fl buffer dst sz bytes_read)"


text \<open>
  The GTK3 program: silence only on the shutdown test, an untimed
  \<^verbatim>\<open>pthread_cond_wait\<close> otherwise. A parked call continues with \<open>read_loop_gtk3\<close>.
\<close>

function read_loop_gtk3 ::
  "nat \<Rightarrow> 'a flags_scheme \<Rightarrow> CircularBuffer \<Rightarrow> uint8_t list \<Rightarrow> nat \<Rightarrow> nat \<Rightarrow> read_result" where
  "read_loop_gtk3 C fl buffer dst sz bytes_read =
     (if bytes_read < sz \<and> keep_running fl then
        (if size_cb buffer = 0 then
           (if \<not> keep_running fl then
              (case memset dst bytes_read 0 (sz - bytes_read) of
                 None \<Rightarrow> Read_fault
               | Some dst' \<Rightarrow> Read_done buffer dst' sz)
            else Read_waiting buffer dst bytes_read)
         else
           (let to_read = (if sz - bytes_read < size_cb buffer then sz - bytes_read
                           else size_cb buffer);
                (segs, new_pos) = wrap_copy C (read_pos buffer) to_read
            in case load_segments dst bytes_read (data buffer) segs of
                 None \<Rightarrow> Read_fault
               | Some dst' \<Rightarrow>
                   read_loop_gtk3 C fl
                     (buffer\<lparr>read_pos := new_pos, size_cb := size_cb buffer - to_read\<rparr>)
                     dst' sz (bytes_read + to_read)))
      else Read_done buffer dst bytes_read)"
  by pat_completeness auto
termination
  by (relation "measure (\<lambda>(C, fl, buffer, dst, sz, bytes_read). sz - bytes_read)")
     (auto split: if_splits)

definition read_from_buffer_gtk3 ::
  "nat \<Rightarrow> 'a flags_scheme \<Rightarrow> CircularBuffer \<Rightarrow> uint8_t list \<Rightarrow> nat \<Rightarrow> read_result" where
  "read_from_buffer_gtk3 C fl buffer dst sz = read_loop_gtk3 C fl buffer dst sz 0"

subsection \<open>play_audio and stop_audio\<close>

definition play_audio :: "globals \<Rightarrow> globals" where
  "play_audio g = g\<lparr>is_audio_playing := True\<rparr>"

definition stop_audio :: "globals \<Rightarrow> globals" where
  "stop_audio g = g\<lparr>is_audio_playing := False\<rparr>"

subsection \<open>The message buffer of the WASAPI program\<close>

text \<open>
  \<^verbatim>\<open>create_circular_buffer(int size)\<close> is the only constructor of the repository that
  takes a capacity. Its two \<^verbatim>\<open>malloc\<close> calls are the parameter \<open>malloc\<close> (does a
  request of that many bytes succeed), the contents of the fresh array the parameter
  \<open>cells\<close>. \<^verbatim>\<open>sizeof(Message) * size\<close> is computed in \<^verbatim>\<open>size_t\<close>: the \<^verbatim>\<open>int\<close> is
  converted modulo \<open>2 ^ 64\<close> first. The sizes are those of the x86-64 ABI.
\<close>

datatype MessageType = MSG_START_AUDIO | MSG_STOP_AUDIO | MSG_EXIT

record Message =
  msg_type :: MessageType

record CircularBuffer_msg =
  buffer :: "Message list"
  size_msg :: int
  read_pos_msg :: int
  write_pos_msg :: int
  count :: int





subsection \<open>Invariant, contents and runs of calls\<close>

definition cb_inv :: "nat \<Rightarrow> CircularBuffer \<Rightarrow> bool" where
  "cb_inv C b \<longleftrightarrow>
     0 < C \<and> length (data b) = C \<and> read_pos b < C \<and> write_pos b < C \<and> size_cb b \<le> C \<and>
     write_pos b = (read_pos b + size_cb b) mod C"

text \<open>The bytes a buffer holds, oldest first.\<close>

definition buffered :: "nat \<Rightarrow> CircularBuffer \<Rightarrow> uint8_t list" where
  "buffered C b = map (\<lambda>i. data b ! ((read_pos b + i) mod C)) [0..<size_cb b]"

text \<open>
  The buffers the program can see: the initialised one, and the buffer a loop leaves
  behind when it returns or parks, started on a buffer seen before with any flags, any
  caller array, any size and any count reached so far (a fresh call starts at 0, a
  woken call where it was).
\<close>

inductive reachable :: "nat \<Rightarrow> CircularBuffer \<Rightarrow> bool" for C :: nat where
  reach_init: "length (data b) = C \<Longrightarrow> reachable C (init_circular_buffer b)"
| reach_written:
    "reachable C b \<Longrightarrow> write_loop C (fl :: flags) b src sz n = Written b' m \<Longrightarrow>
     reachable C b'"
| reach_write_blocked:
    "reachable C b \<Longrightarrow> write_loop C (fl :: flags) b src sz n = Write_blocked b' m \<Longrightarrow>
     reachable C b'"
| reach_read_done:
    "reachable C b \<Longrightarrow> read_loop C (fl :: flags) b dst sz n = Read_done b' dst' m \<Longrightarrow>
     reachable C b'"
| reach_read_waiting:
    "reachable C b \<Longrightarrow> read_loop C (fl :: flags) b dst sz n = Read_waiting b' dst' m \<Longrightarrow>
     reachable C b'"

text \<open>
  A sequence of calls made one after the other: \<open>Write_call src\<close> is
  \<^verbatim>\<open>write_to_buffer(buffer, src, length src)\<close>, \<open>Read_call dst\<close> is
  \<^verbatim>\<open>read_from_buffer(buffer, dst, length dst)\<close>. \<open>run_calls\<close> gives the bytes the
  reads delivered, in order; it is \<open>None\<close> as soon as a call parks, faults or returns
  another count than the one asked for.
\<close>

datatype call = Write_call "uint8_t list" | Read_call "uint8_t list"

fun run_calls ::
  "nat \<Rightarrow> 'a flags_scheme \<Rightarrow> CircularBuffer \<Rightarrow> call list \<Rightarrow> uint8_t list option" where
  "run_calls C fl b [] = Some []"
| "run_calls C fl b (Write_call src # cs) =
     (case write_to_buffer C fl b src (length src) of
        Written b' n \<Rightarrow> if n = length src then run_calls C fl b' cs else None
      | Write_blocked b' n \<Rightarrow> None
      | Write_fault \<Rightarrow> None)"
| "run_calls C fl b (Read_call dst # cs) =
     (case read_from_buffer C fl b dst (length dst) of
        Read_done b' dst' n \<Rightarrow>
          if n = length dst then map_option (\<lambda>rest. dst' @ rest) (run_calls C fl b' cs)
          else None
      | Read_waiting b' dst' n \<Rightarrow> None
      | Read_fault \<Rightarrow> None)"

fun supplied :: "call list \<Rightarrow> uint8_t list" where
  "supplied [] = []"
| "supplied (Write_call src # cs) = src @ supplied cs"
| "supplied (Read_call dst # cs) = supplied cs"

fun requested :: "call list \<Rightarrow> nat" where
  "requested [] = 0"
| "requested (Write_call src # cs) = requested cs"
| "requested (Read_call dst # cs) = length dst + requested cs"

text \<open>
  No call has to block: with \<open>filled\<close> bytes in a buffer of capacity \<open>C\<close>, each write
  finds room for all its bytes and each read finds all the bytes it asks for.
\<close>

fun no_block :: "nat \<Rightarrow> nat \<Rightarrow> call list \<Rightarrow> bool" where
  "no_block C filled [] = True"
| "no_block C filled (Write_call src # cs) =
     (filled + length src \<le> C \<and> no_block C (filled + length src) cs)"
| "no_block C filled (Read_call dst # cs) =
     (length dst \<le> filled \<and> no_block C (filled - length dst) cs)"

text \<open>
  \<open>k\<close> timeouts in a row of a parked \<^verbatim>\<open>read_from_buffer(buffer, dst, sz)\<close>, with
  nothing written and no flag changed in between.
\<close>

fun read_timeouts :: "nat \<Rightarrow> 'a flags_scheme \<Rightarrow> nat \<Rightarrow> nat \<Rightarrow> read_result \<Rightarrow> read_result" where
  "read_timeouts C fl sz 0 r = r"
| "read_timeouts C fl sz (Suc k) r =
     (case r of
        Read_waiting b dst n \<Rightarrow> read_timeouts C fl sz k (read_wakeup C fl True b dst sz n)
      | Read_done b dst n \<Rightarrow> r
      | Read_fault \<Rightarrow> r)"


declare write_loop.simps [simp del]
declare read_loop.simps [simp del]
declare read_loop_gtk3.simps [simp del]

section \<open>Copies and arithmetic modulo the capacity\<close>

lemma size_t_sub_le [simp]: "b \<le> a \<Longrightarrow> size_t_sub a b = a - b"
  by (simp add: size_t_sub_def)

lemma memcpy_length: "memcpy dst doff src soff n = Some r \<Longrightarrow> length r = length dst"
  by (auto simp: memcpy_def split: if_splits)

lemma memcpy_nth:
  "memcpy dst doff src soff n = Some r \<Longrightarrow> i < length dst \<Longrightarrow>
   r ! i = (if doff \<le> i \<and> i < doff + n then src ! (soff + (i - doff)) else dst ! i)"
proof -
  assume a: "memcpy dst doff src soff n = Some r" and i: "i < length dst"
  then have b: "doff + n \<le> length dst" "soff + n \<le> length src"
    and r: "r = take doff dst @ take n (drop soff src) @ drop (doff + n) dst"
    by (auto simp: memcpy_def split: if_splits)
  have l1: "length (take doff dst) = doff" and l2: "length (take n (drop soff src)) = n"
    using b by auto
  consider "i < doff" | "doff \<le> i" "i < doff + n" | "doff + n \<le> i" by linarith
  then show ?thesis
  proof cases
    case 1
    then show ?thesis using b by (simp add: r nth_append)
  next
    case 2
    then have "r ! i = (take n (drop soff src)) ! (i - doff)"
      unfolding r by (simp add: nth_append l1 l2 del: length_take take_drop)
    with 2 b show ?thesis by simp
  next
    case 3
    then have "r ! i = drop (doff + n) dst ! (i - doff - n)"
      unfolding r using b by (simp add: nth_append l1 l2 del: length_take nth_drop)
    with 3 b i show ?thesis by simp
  qed
qed

lemma memcpy_Some:
  "doff + n \<le> length dst \<Longrightarrow> soff + n \<le> length src \<Longrightarrow> \<exists>r. memcpy dst doff src soff n = Some r"
  by (simp add: memcpy_def)

lemma wrap_copy_snd: "pos < C \<Longrightarrow> n \<le> C \<Longrightarrow> snd (wrap_copy C pos n) = (pos + n) mod C"
  by (auto simp: wrap_copy_def Let_def mod_if not_le)

lemma cyc_mod: "j < C \<Longrightarrow> p \<le> C \<Longrightarrow> (j + C - p) mod (C::nat) = (if p \<le> j then j - p else j + C - p)"
  by (auto simp: le_mod_geq)

lemma mod_wrap2: "C \<le> m \<Longrightarrow> m < 2 * C \<Longrightarrow> m mod C = m - (C::nat)"
  by (simp add: le_mod_geq)

lemma add_mod_wrap: "a < C \<Longrightarrow> b \<le> C \<Longrightarrow> (a + b) mod (C::nat) = (if a + b < C then a + b else a + b - C)"
  by (auto simp: mod_if)

lemma store_wrap:
  assumes "wp < C" "n \<le> C" "length ring = C" "bw + n \<le> length src"
  shows "\<exists>ring'. store_segments ring src bw (fst (wrap_copy C wp n)) = Some ring' \<and>
           length ring' = C \<and>
           (\<forall>j<C. ring' ! j = (if (j + C - wp) mod C < n then src ! (bw + (j + C - wp) mod C)
                               else ring ! j))"
proof (cases "n \<le> C - wp")
  case True
  from assms True have "wp + n \<le> length ring" by arith
  with assms obtain r where r: "memcpy ring wp src bw n = Some r"
    using memcpy_Some [of wp n ring bw src] by blast
  have "\<forall>j<C. r ! j = (if (j + C - wp) mod C < n then src ! (bw + (j + C - wp) mod C) else ring ! j)"
    using assms True by (auto simp: memcpy_nth [OF r] cyc_mod)
  with r assms True show ?thesis
    by (simp add: wrap_copy_def memcpy_length [OF r])
next
  case False
  define fc where "fc = C - wp"
  from assms False have "wp + fc \<le> length ring" "bw + fc \<le> length src" by (auto simp: fc_def)
  then obtain r1 where r1: "memcpy ring wp src bw fc = Some r1"
    using memcpy_Some [of wp fc ring bw src] by blast
  have l1: "length r1 = C" using memcpy_length [OF r1] assms by simp
  from assms False l1 have "0 + (n - fc) \<le> length r1" "bw + fc + (n - fc) \<le> length src"
    by (auto simp: fc_def)
  then obtain r2 where r2: "memcpy r1 0 src (bw + fc) (n - fc) = Some r2"
    using memcpy_Some [of 0 "n - fc" r1 "bw + fc" src] by blast
  have l2: "length r2 = C" using memcpy_length [OF r2] l1 by simp
  have "\<forall>j<C. r2 ! j = (if (j + C - wp) mod C < n then src ! (bw + (j + C - wp) mod C) else ring ! j)"
    using assms False l1
    apply (auto simp: memcpy_nth [OF r2] memcpy_nth [OF r1] cyc_mod fc_def)
    apply (rule arg_cong [where f = "(!) src"])
    apply arith
    done
  with r1 r2 l2 assms False show ?thesis
    by (simp add: wrap_copy_def fc_def Let_def)
qed

lemma load_wrap:
  assumes "rp < C" "n \<le> C" "length ring = C" "br + n \<le> length dst"
  shows "\<exists>dst'. load_segments dst br ring (fst (wrap_copy C rp n)) = Some dst' \<and>
           length dst' = length dst \<and>
           (\<forall>i<length dst. dst' ! i = (if br \<le> i \<and> i < br + n then ring ! ((rp + (i - br)) mod C)
                               else dst ! i))"
proof (cases "n \<le> C - rp")
  case True
  from assms True have "rp + n \<le> length ring" by arith
  with assms obtain r where r: "memcpy dst br ring rp n = Some r"
    using memcpy_Some [of br n dst rp ring] by blast
  have "\<forall>i<length dst. r ! i = (if br \<le> i \<and> i < br + n then ring ! ((rp + (i - br)) mod C)
                               else dst ! i)"
    using assms True by (auto simp: memcpy_nth [OF r])
  with r assms True show ?thesis
    by (simp add: wrap_copy_def memcpy_length [OF r])
next
  case False
  define fc where "fc = C - rp"
  from assms False have "br + fc \<le> length dst" "rp + fc \<le> length ring" by (auto simp: fc_def)
  then obtain r1 where r1: "memcpy dst br ring rp fc = Some r1"
    using memcpy_Some [of br fc dst rp ring] by blast
  have l1: "length r1 = length dst" using memcpy_length [OF r1] by simp
  from assms False l1 have "br + fc + (n - fc) \<le> length r1" "0 + (n - fc) \<le> length ring"
    by (auto simp: fc_def)
  then obtain r2 where r2: "memcpy r1 (br + fc) ring 0 (n - fc) = Some r2"
    using memcpy_Some [of "br + fc" "n - fc" r1 0 ring] by blast
  have l2: "length r2 = length dst" using memcpy_length [OF r2] l1 by simp
  have "\<forall>i<length dst. r2 ! i = (if br \<le> i \<and> i < br + n then ring ! ((rp + (i - br)) mod C)
                               else dst ! i)"
    using assms False l1
    apply (auto simp: memcpy_nth [OF r2] memcpy_nth [OF r1] add_mod_wrap fc_def)
    apply (rule arg_cong [where f = "(!) ring"])
    apply (subst mod_wrap2)
    apply arith+
    done
  with r1 r2 l2 assms False show ?thesis
    by (simp add: wrap_copy_def fc_def Let_def)
qed


lemma cyc_dist:
  "rp < C \<Longrightarrow> s \<le> C \<Longrightarrow> i < C \<Longrightarrow>
   ((rp + i) mod C + C - (rp + s) mod C) mod C = (if s \<le> i then i - s else i + C - (s::nat))"
proof -
  assume a: "rp < C" "s \<le> C" "i < C"
  then have "(rp + i) mod C < C" by simp
  from cyc_mod [OF this, of "(rp + s) mod C"] a
  have "((rp + i) mod C + C - (rp + s) mod C) mod C =
        (if (rp + s) mod C \<le> (rp + i) mod C then (rp + i) mod C - (rp + s) mod C
         else (rp + i) mod C + C - (rp + s) mod C)"
    by simp
  also have "\<dots> = (if s \<le> i then i - s else i + C - s)"
    using a by (auto simp: add_mod_wrap)
  finally show ?thesis .
qed

lemma cb_inv_size_t_sub:
  "cb_inv C b \<Longrightarrow> size_t_sub C (size_cb b) = C - size_cb b"
  "cb_inv C b \<Longrightarrow> size_t_sub C (write_pos b) = C - write_pos b"
  "cb_inv C b \<Longrightarrow> size_t_sub C (read_pos b) = C - read_pos b"
  by (simp_all add: cb_inv_def)

lemma buffered_length [simp]: "length (buffered C b) = size_cb b"
  by (simp add: buffered_def)

lemma buffered_nth: "i < size_cb b \<Longrightarrow> buffered C b ! i = data b ! ((read_pos b + i) mod C)"
  by (simp add: buffered_def)

section \<open>One round of each loop\<close>

lemma write_iter:
  assumes inv: "cb_inv C b" and run: "keep_running fl" and lt: "bw < sz"
    and room: "size_cb b < C" and src: "sz \<le> length src"
  defines "k \<equiv> min (sz - bw) (C - size_cb b)"
  shows "\<exists>b'. write_loop C fl b src sz bw = write_loop C fl b' src sz (bw + k) \<and>
           cb_inv C b' \<and> buffered C b' = buffered C b @ take k (drop bw src) \<and>
           read_pos b' = read_pos b \<and> size_cb b' = size_cb b + k"
proof -
  from inv have C: "0 < C" and len: "length (data b) = C" and rp: "read_pos b < C"
    and wp: "write_pos b < C" and sz: "size_cb b \<le> C"
    and wpeq: "write_pos b = (read_pos b + size_cb b) mod C"
    by (simp_all add: cb_inv_def)
  have k: "k \<le> C" "0 < k" "bw + k \<le> length src" "size_cb b + k \<le> C"
    using lt room src by (auto simp: k_def)
  from store_wrap [OF wp k(1) len k(3)] obtain ring where
    st: "store_segments (data b) src bw (fst (wrap_copy C (write_pos b) k)) = Some ring"
    and rl: "length ring = C"
    and rn: "\<forall>j<C. ring ! j = (if (j + C - write_pos b) mod C < k
                then src ! (bw + (j + C - write_pos b) mod C) else data b ! j)"
    by blast
  define b' where "b' = b\<lparr>data := ring, write_pos := (write_pos b + k) mod C,
                          size_cb := size_cb b + k\<rparr>"
  have tw: "(if sz - bw < C - size_cb b then sz - bw else C - size_cb b) = k"
    by (simp add: k_def min_def)
  have step: "write_loop C fl b src sz bw = write_loop C fl b' src sz (bw + k)"
    using run lt room st
    by (subst write_loop.simps)
       (simp add: cb_inv_size_t_sub [OF inv] tw case_prod_beta wrap_copy_snd [OF wp k(1)] b'_def)
  have inv': "cb_inv C b'"
    using C rl rp k(4) by (simp add: cb_inv_def b'_def wpeq mod_add_left_eq add.assoc)
  have buf: "buffered C b' = buffered C b @ take k (drop bw src)"
  proof (rule nth_equalityI)
    show "length (buffered C b') = length (buffered C b @ take k (drop bw src))"
      using k by (simp add: b'_def)
  next
    fix i assume "i < length (buffered C b')"
    then have i: "i < size_cb b + k" by (simp add: b'_def)
    with k have iC: "i < C" by simp
    have "buffered C b' ! i = ring ! ((read_pos b + i) mod C)"
      using i by (simp add: buffered_nth b'_def)
    also have "\<dots> = (if ((read_pos b + i) mod C + C - write_pos b) mod C < k
                     then src ! (bw + ((read_pos b + i) mod C + C - write_pos b) mod C)
                     else data b ! ((read_pos b + i) mod C))"
      using rn C by simp
    also have "\<dots> = (if size_cb b \<le> i then src ! (bw + (i - size_cb b))
                     else data b ! ((read_pos b + i) mod C))"
      using i k(4) unfolding wpeq cyc_dist [OF rp sz iC] by auto
    also have "\<dots> = (buffered C b @ take k (drop bw src)) ! i"
      using i k by (simp add: nth_append buffered_nth)
    finally show "buffered C b' ! i = (buffered C b @ take k (drop bw src)) ! i" .
  qed
  from step inv' buf show ?thesis by (intro exI [of _ b']) (simp add: b'_def)
qed

lemma read_iter:
  assumes inv: "cb_inv C b" and run: "keep_running fl" and lt: "br < sz"
    and ne: "0 < size_cb b" and dst: "sz \<le> length dst"
  defines "k \<equiv> min (sz - br) (size_cb b)"
  defines "b' \<equiv> b\<lparr>read_pos := (read_pos b + k) mod C, size_cb := size_cb b - k\<rparr>"
  shows "read_loop C fl b dst sz br =
           read_loop C fl b' (take br dst @ take k (buffered C b) @ drop (br + k) dst) sz (br + k)"
    and "cb_inv C b'" and "buffered C b' = drop k (buffered C b)"
proof -
  from inv have C: "0 < C" and len: "length (data b) = C" and rp: "read_pos b < C"
    and wp: "write_pos b < C" and sz: "size_cb b \<le> C"
    and wpeq: "write_pos b = (read_pos b + size_cb b) mod C"
    by (simp_all add: cb_inv_def)
  have k: "k \<le> C" "0 < k" "br + k \<le> length dst" "k \<le> size_cb b" "br + k \<le> sz"
    using lt ne dst sz by (auto simp: k_def)
  from load_wrap [OF rp k(1) len k(3)] obtain dst' where
    ld: "load_segments dst br (data b) (fst (wrap_copy C (read_pos b) k)) = Some dst'"
    and dl: "length dst' = length dst"
    and dn: "\<forall>i<length dst. dst' ! i = (if br \<le> i \<and> i < br + k
                then data b ! ((read_pos b + (i - br)) mod C) else dst ! i)"
    by blast
  have "dst' = take br dst @ take k (buffered C b) @ drop (br + k) dst"
  proof (rule nth_equalityI)
    show "length dst' = length (take br dst @ take k (buffered C b) @ drop (br + k) dst)"
      using k dl by simp
  next
    fix i assume "i < length dst'"
    then have i: "i < length dst" by (simp add: dl)
    from dn i have di: "dst' ! i = (if br \<le> i \<and> i < br + k
                then data b ! ((read_pos b + (i - br)) mod C) else dst ! i)" by blast
    have l1: "length (take br dst) = br" and l2: "length (take k (buffered C b)) = k"
      using k by auto
    consider "i < br" | "br \<le> i" "i < br + k" | "br + k \<le> i" by linarith
    then show "dst' ! i = (take br dst @ take k (buffered C b) @ drop (br + k) dst) ! i"
    proof cases
      case 1
      with di show ?thesis by (simp add: nth_append l1 del: length_take)
    next
      case 2
      then have "i - br < k" by arith
      with 2 k di show ?thesis
        by (simp add: nth_append l1 l2 buffered_nth del: length_take)
    next
      case 3
      then have "\<not> i < br" "\<not> i - br < k" by arith+
      then have "(take br dst @ take k (buffered C b) @ drop (br + k) dst) ! i =
                 drop (br + k) dst ! (i - br - k)"
        by (simp add: nth_append l1 l2 del: length_take nth_drop)
      with 3 k i di show ?thesis by simp
    qed
  qed
  with ld have ld': "load_segments dst br (data b) (fst (wrap_copy C (read_pos b) k)) =
      Some (take br dst @ take k (buffered C b) @ drop (br + k) dst)" by simp
  have tr: "(if sz - br < size_cb b then sz - br else size_cb b) = k"
    by (simp add: k_def min_def)
  show "read_loop C fl b dst sz br =
           read_loop C fl b' (take br dst @ take k (buffered C b) @ drop (br + k) dst) sz (br + k)"
    using run lt ne ld'
    by (subst read_loop.simps)
       (simp add: tr case_prod_beta wrap_copy_snd [OF rp k(1)] b'_def)
  have "((read_pos b + k) mod C + (size_cb b - k)) mod C = (read_pos b + k + (size_cb b - k)) mod C"
    by (simp add: mod_add_left_eq)
  also have "\<dots> = (read_pos b + size_cb b) mod C"
    using k(4) by simp
  finally have wp': "write_pos b = ((read_pos b + k) mod C + (size_cb b - k)) mod C"
    by (simp add: wpeq)
  show "cb_inv C b'"
    using C len wp sz wp' by (simp add: cb_inv_def b'_def)
  show "buffered C b' = drop k (buffered C b)"
  proof (rule nth_equalityI)
    show "length (buffered C b') = length (drop k (buffered C b))"
      by (simp add: b'_def)
  next
    fix i assume "i < length (buffered C b')"
    then have i: "i < size_cb b - k" by (simp add: b'_def)
    then show "buffered C b' ! i = drop k (buffered C b) ! i"
      using k by (simp add: buffered_nth b'_def mod_add_left_eq add.assoc)
  qed
qed

lemma write_loop_exit:
  "\<not> (bw < sz \<and> keep_running fl) \<Longrightarrow> write_loop C fl b src sz bw = Written b bw"
  by (subst write_loop.simps) auto

lemma write_loop_full:
  "bw < sz \<Longrightarrow> keep_running fl \<Longrightarrow> size_cb b = C \<Longrightarrow>
   write_loop C fl b src sz bw = Write_blocked b bw"
  by (subst write_loop.simps) simp

lemma read_loop_exit:
  "\<not> (br < sz \<and> keep_running fl) \<Longrightarrow> read_loop C fl b dst sz br = Read_done b dst br"
  by (subst read_loop.simps) auto

lemma read_loop_empty_idle:
  "br < sz \<Longrightarrow> keep_running fl \<Longrightarrow> \<not> is_audio_playing fl \<Longrightarrow> size_cb b = 0 \<Longrightarrow>
   sz \<le> length dst \<Longrightarrow>
   read_loop C fl b dst sz br = Read_done b (take br dst @ replicate (sz - br) 0 @ drop sz dst) sz"
  by (subst read_loop.simps) (simp add: memset_def)

lemma read_loop_empty_playing:
  "br < sz \<Longrightarrow> keep_running fl \<Longrightarrow> is_audio_playing fl \<Longrightarrow> size_cb b = 0 \<Longrightarrow>
   read_loop C fl b dst sz br = Read_waiting b dst br"
  by (subst read_loop.simps) simp

lemma write_loop_contract:
  fixes fl :: "'a flags_scheme"
  assumes inv: "cb_inv C b" and le: "bw \<le> sz" and src: "sz \<le> length src"
  defines "n \<equiv> (if keep_running fl then bw + min (sz - bw) (C - size_cb b) else bw)"
  shows "\<exists>b'. write_loop C fl b src sz bw =
                 (if keep_running fl \<and> n < sz then Write_blocked b' n else Written b' n) \<and>
              cb_inv C b' \<and> buffered C b' = buffered C b @ take (n - bw) (drop bw src) \<and>
              size_cb b' = size_cb b + (n - bw) \<and> read_pos b' = read_pos b \<and>
              (keep_running fl \<and> n < sz \<longrightarrow> size_cb b' = C)"
proof -
  from inv have szC: "size_cb b \<le> C" by (simp add: cb_inv_def)
  consider "\<not> (bw < sz \<and> keep_running fl)" | "bw < sz" "keep_running fl" "size_cb b = C"
    | "bw < sz" "keep_running fl" "size_cb b < C"
    using szC by linarith
  then show ?thesis
  proof cases
    case 1
    with le have "n = bw" "\<not> (keep_running fl \<and> n < sz)" by (auto simp: n_def)
    with 1 inv show ?thesis
      by (intro exI [of _ b]) (auto simp: write_loop_exit)
  next
    case 2
    then have "n = bw" by (simp add: n_def)
    with 2 inv show ?thesis
      by (intro exI [of _ b]) (simp add: write_loop_full)
  next
    case 3
    define k where "k = min (sz - bw) (C - size_cb b)"
    from 3 have n: "n = bw + k" by (simp add: n_def k_def)
    from write_iter [OF inv 3(2) 3(1) 3(3) src] obtain b' where
      st: "write_loop C fl b src sz bw = write_loop C fl b' src sz (bw + k)"
      and inv': "cb_inv C b'" and buf: "buffered C b' = buffered C b @ take k (drop bw src)"
      and rp: "read_pos b' = read_pos b" and sz': "size_cb b' = size_cb b + k"
      unfolding k_def by blast
    show ?thesis
    proof (cases "n < sz")
      case True
      with 3 n have "k = C - size_cb b" by (simp add: k_def min_def split: if_splits)
      with sz' szC have full: "size_cb b' = C" by simp
      from True n 3 full have "write_loop C fl b' src sz (bw + k) = Write_blocked b' (bw + k)"
        by (simp add: write_loop_full)
      with st True 3 n inv' buf rp sz' full show ?thesis
        by (intro exI [of _ b']) simp
    next
      case False
      then have "write_loop C fl b' src sz (bw + k) = Written b' (bw + k)"
        using n by (simp add: write_loop_exit)
      with st False n inv' buf rp sz' show ?thesis
        by (intro exI [of _ b']) simp
    qed
  qed
qed

lemma read_loop_nonempty:
  assumes inv: "cb_inv C b" and run: "keep_running fl" and lt: "br < sz"
    and ne: "0 < size_cb b" and dst: "sz \<le> length dst"
  defines "k \<equiv> min (sz - br) (size_cb b)"
  defines "b' \<equiv> b\<lparr>read_pos := (read_pos b + k) mod C, size_cb := size_cb b - k\<rparr>"
  defines "dst' \<equiv> take br dst @ take k (buffered C b) @ drop (br + k) dst"
  shows "read_loop C fl b dst sz br =
           (if br + k = sz then Read_done b' dst' sz
            else if is_audio_playing fl then Read_waiting b' dst' (br + k)
            else Read_done b' (take (br + k) dst' @ replicate (sz - (br + k)) 0 @ drop sz dst') sz)"
proof -
  have st: "read_loop C fl b dst sz br = read_loop C fl b' dst' sz (br + k)"
    unfolding k_def b'_def dst'_def by (rule read_iter(1) [OF inv run lt ne dst])
  have k: "br + k \<le> sz" "k \<le> size_cb b" using lt by (auto simp: k_def)
  have ld: "length dst' = length dst" using k dst by (simp add: dst'_def)
  show ?thesis
  proof (cases "br + k = sz")
    case True
    then show ?thesis using st by (simp add: read_loop_exit)
  next
    case False
    with k have lt': "br + k < sz" by simp
    then have "k = size_cb b" by (simp add: k_def min_def split: if_splits)
    then have emp: "size_cb b' = 0" by (simp add: b'_def)
    show ?thesis
    proof (cases "is_audio_playing fl")
      case True
      with False st lt' run emp show ?thesis by (simp add: read_loop_empty_playing)
    next
      case pl: False
      from dst ld have "sz \<le> length dst'" by simp
      from read_loop_empty_idle [OF lt' run pl emp this] False st pl show ?thesis by simp
    qed
  qed
qed

lemma write_fits:
  assumes inv: "cb_inv C b" and run: "keep_running fl" and fit: "size_cb b + length src \<le> C"
  shows "\<exists>b'. write_to_buffer C fl b src (length src) = Written b' (length src) \<and>
           cb_inv C b' \<and> buffered C b' = buffered C b @ src \<and>
           size_cb b' = size_cb b + length src"
proof -
  from fit have m: "min (length src) (C - size_cb b) = length src" by simp
  from write_loop_contract [OF inv, of 0 "length src" src fl] run m
  show ?thesis by (auto simp: write_to_buffer_def)
qed

lemma read_fits:
  assumes inv: "cb_inv C b" and run: "keep_running fl" and fit: "length dst \<le> size_cb b"
  shows "\<exists>b'. read_from_buffer C fl b dst (length dst) =
                 Read_done b' (take (length dst) (buffered C b)) (length dst) \<and>
           cb_inv C b' \<and> buffered C b' = drop (length dst) (buffered C b) \<and>
           size_cb b' = size_cb b - length dst"
proof (cases "length dst = 0")
  case True
  with inv show ?thesis
    by (intro exI [of _ b]) (simp add: read_from_buffer_def read_loop_exit)
next
  case False
  then have lt: "0 < length dst" by simp
  from lt fit have ne: "0 < size_cb b" by linarith
  from fit have m: "min (length dst) (size_cb b) = length dst" by simp
  define b' where "b' = b\<lparr>read_pos := (read_pos b + length dst) mod C,
                          size_cb := size_cb b - length dst\<rparr>"
  from read_loop_nonempty [OF inv run lt ne order_refl] m
  have "read_from_buffer C fl b dst (length dst) =
          Read_done b' (take (length dst) (buffered C b)) (length dst)"
    by (simp add: read_from_buffer_def b'_def)
  moreover from read_iter(2,3) [OF inv run lt ne order_refl] m
  have "cb_inv C b'" "buffered C b' = drop (length dst) (buffered C b)"
    by (simp_all add: b'_def)
  ultimately show ?thesis
    by (intro exI [of _ b']) (simp add: b'_def)
qed

lemma take_split:
  "n \<le> length xs \<Longrightarrow> take n xs @ take m (drop n xs @ ys) = take (n + m) (xs @ ys)"
  by (subst take_add) simp

lemma run_calls_fifo:
  "cb_inv C b \<Longrightarrow> keep_running fl \<Longrightarrow> no_block C (size_cb b) cs \<Longrightarrow>
   run_calls C fl b cs = Some (take (requested cs) (buffered C b @ supplied cs))"
proof (induction cs arbitrary: b)
  case Nil
  then show ?case by simp
next
  case (Cons c cs)
  show ?case
  proof (cases c)
    case (Write_call src)
    with Cons.prems have fit: "size_cb b + length src \<le> C"
      and nb: "no_block C (size_cb b + length src) cs" by simp_all
    from write_fits [OF Cons.prems(1,2) fit] obtain b' where
      w: "write_to_buffer C fl b src (length src) = Written b' (length src)"
      and inv': "cb_inv C b'" and buf: "buffered C b' = buffered C b @ src"
      and sz': "size_cb b' = size_cb b + length src" by blast
    from Cons.IH [OF inv' Cons.prems(2)] nb sz'
    have "run_calls C fl b' cs = Some (take (requested cs) (buffered C b' @ supplied cs))"
      by simp
    with w buf Write_call show ?thesis by simp
  next
    case (Read_call dst)
    with Cons.prems have fit: "length dst \<le> size_cb b"
      and nb: "no_block C (size_cb b - length dst) cs" by simp_all
    from read_fits [OF Cons.prems(1,2) fit] obtain b' where
      r: "read_from_buffer C fl b dst (length dst) =
            Read_done b' (take (length dst) (buffered C b)) (length dst)"
      and inv': "cb_inv C b'" and buf: "buffered C b' = drop (length dst) (buffered C b)"
      and sz': "size_cb b' = size_cb b - length dst" by blast
    from Cons.IH [OF inv' Cons.prems(2)] nb sz'
    have "run_calls C fl b' cs = Some (take (requested cs) (buffered C b' @ supplied cs))"
      by simp
    with r Read_call
    have "run_calls C fl b (c # cs) =
            Some (take (length dst) (buffered C b) @
                  take (requested cs) (drop (length dst) (buffered C b) @ supplied cs))"
      by (simp add: buf del: take_append)
    also have "take (length dst) (buffered C b) @
                  take (requested cs) (drop (length dst) (buffered C b) @ supplied cs) =
               take (length dst + requested cs) (buffered C b @ supplied cs)"
      using fit by (intro take_split) simp
    finally show ?thesis using Read_call by (simp del: take_append)
  qed
qed

lemma cb_inv_init: "0 < C \<Longrightarrow> length (data b) = C \<Longrightarrow> cb_inv C (init_circular_buffer b)"
  by (simp add: cb_inv_def init_circular_buffer_def)

section \<open>Invariant preservation and results of the loops\<close>

lemma store_segments_length:
  "store_segments ring src base segs = Some r \<Longrightarrow> length r = length ring"
  by (induction ring src base segs rule: store_segments.induct)
     (auto split: option.splits simp: memcpy_length)

lemma wrap_copy_pos: "pos < C \<Longrightarrow> n \<le> C \<Longrightarrow> snd (wrap_copy C pos n) < C"
  by (simp add: wrap_copy_snd)

lemma cb_inv_after_write:
  assumes inv: "cb_inv C b" and n: "n \<le> C - size_cb b" and len: "length ring = C"
  shows "cb_inv C (b\<lparr>data := ring, write_pos := snd (wrap_copy C (write_pos b) n),
                      size_cb := size_cb b + n\<rparr>)"
proof -
  from inv have C: "0 < C" and rp: "read_pos b < C" and wp: "write_pos b < C"
    and s: "size_cb b \<le> C" and wpeq: "write_pos b = (read_pos b + size_cb b) mod C"
    by (simp_all add: cb_inv_def)
  from n s have nC: "n \<le> C" and sn: "size_cb b + n \<le> C" by simp_all
  have p: "snd (wrap_copy C (write_pos b) n) = (write_pos b + n) mod C"
    by (rule wrap_copy_snd [OF wp nC])
  have "(write_pos b + n) mod C = (read_pos b + (size_cb b + n)) mod C"
    unfolding wpeq by (simp add: mod_add_left_eq add.assoc)
  with C rp sn len show ?thesis
    unfolding cb_inv_def p by simp
qed

lemma cb_inv_after_read:
  assumes inv: "cb_inv C b" and n: "n \<le> size_cb b"
  shows "cb_inv C (b\<lparr>read_pos := snd (wrap_copy C (read_pos b) n), size_cb := size_cb b - n\<rparr>)"
proof -
  from inv have C: "0 < C" and rp: "read_pos b < C" and wp: "write_pos b < C"
    and s: "size_cb b \<le> C" and wpeq: "write_pos b = (read_pos b + size_cb b) mod C"
    and len: "length (data b) = C"
    by (simp_all add: cb_inv_def)
  from n s have nC: "n \<le> C" and sn: "size_cb b - n \<le> C" by simp_all
  have p: "snd (wrap_copy C (read_pos b) n) = (read_pos b + n) mod C"
    by (rule wrap_copy_snd [OF rp nC])
  have "((read_pos b + n) mod C + (size_cb b - n)) mod C = (read_pos b + n + (size_cb b - n)) mod C"
    by (simp add: mod_add_left_eq)
  also have "\<dots> = (read_pos b + size_cb b) mod C"
    using n by simp
  finally have "write_pos b = ((read_pos b + n) mod C + (size_cb b - n)) mod C"
    by (simp add: wpeq)
  with C wp sn len show ?thesis
    unfolding cb_inv_def p by simp
qed

lemma write_loop_inv:
  "cb_inv C b \<Longrightarrow>
   (case write_loop C fl b src sz bw of
      Written b' m \<Rightarrow> cb_inv C b' | Write_blocked b' m \<Rightarrow> cb_inv C b' | Write_fault \<Rightarrow> True)"
proof (induction C fl b src sz bw rule: write_loop.induct)
  case (1 C fl buffer src sz bytes_written)
  show ?case
  proof (cases "bytes_written < sz \<and> keep_running fl")
    case False
    with "1.prems" show ?thesis by (simp add: write_loop_exit)
  next
    case True
    show ?thesis
    proof (cases "size_cb buffer = C")
      case full: True
      with True "1.prems" show ?thesis by (simp add: write_loop_full)
    next
      case False
      define to_write where "to_write = (if sz - bytes_written < C - size_cb buffer
          then sz - bytes_written else C - size_cb buffer)"
      have tw: "to_write \<le> C - size_cb buffer" by (simp add: to_write_def)
      from "1.prems" False have av: "size_t_sub C (size_cb buffer) \<noteq> 0"
        by (simp add: cb_inv_size_t_sub cb_inv_def)
      show ?thesis
      proof (cases "store_segments (data buffer) src bytes_written
                      (fst (wrap_copy C (write_pos buffer) to_write))")
        case None
        with True av "1.prems" show ?thesis
          by (subst write_loop.simps)
             (simp add: cb_inv_size_t_sub to_write_def case_prod_beta)
      next
        case (Some ring)
        from store_segments_length [OF Some] "1.prems" have len: "length ring = C"
          by (simp add: cb_inv_def)
        let ?b' = "buffer\<lparr>data := ring, write_pos := snd (wrap_copy C (write_pos buffer) to_write),
                      size_cb := size_cb buffer + to_write\<rparr>"
        have inv': "cb_inv C ?b'" by (rule cb_inv_after_write [OF "1.prems" tw len])
        have st: "write_loop C fl buffer src sz bytes_written =
                  write_loop C fl ?b' src sz (bytes_written + to_write)"
          using True av Some "1.prems"
          by (subst write_loop.simps)
             (simp add: cb_inv_size_t_sub to_write_def case_prod_beta)
        have "case write_loop C fl ?b' src sz (bytes_written + to_write) of
                Written b' m \<Rightarrow> cb_inv C b' | Write_blocked b' m \<Rightarrow> cb_inv C b'
              | Write_fault \<Rightarrow> True"
          using True av Some "1.prems" inv'
          by (intro "1.IH" [where x = "size_t_sub C (size_cb buffer)" and xa = to_write
                and xb = "wrap_copy C (write_pos buffer) to_write"])
             (simp_all add: cb_inv_size_t_sub to_write_def prod_eq_iff)
        with st show ?thesis by simp
      qed
    qed
  qed
qed

lemma read_loop_inv:
  "cb_inv C b \<Longrightarrow>
   (case read_loop C fl b dst sz br of
      Read_done b' d m \<Rightarrow> cb_inv C b' | Read_waiting b' d m \<Rightarrow> cb_inv C b' | Read_fault \<Rightarrow> True)"
proof (induction C fl b dst sz br rule: read_loop.induct)
  case (1 C fl buffer dst sz bytes_read)
  show ?case
  proof (cases "bytes_read < sz \<and> keep_running fl")
    case False
    with "1.prems" show ?thesis by (simp add: read_loop_exit)
  next
    case True
    show ?thesis
    proof (cases "size_cb buffer = 0")
      case empty: True
      with True "1.prems" show ?thesis
        by (subst read_loop.simps) (simp split: option.splits)
    next
      case False
      define to_read where "to_read = (if sz - bytes_read < size_cb buffer
          then sz - bytes_read else size_cb buffer)"
      have tr: "to_read \<le> size_cb buffer" by (simp add: to_read_def)
      show ?thesis
      proof (cases "load_segments dst bytes_read (data buffer)
                      (fst (wrap_copy C (read_pos buffer) to_read))")
        case None
        with True False show ?thesis
          by (subst read_loop.simps) (simp add: to_read_def case_prod_beta Let_def)
      next
        case (Some dst')
        let ?b' = "buffer\<lparr>read_pos := snd (wrap_copy C (read_pos buffer) to_read),
                      size_cb := size_cb buffer - to_read\<rparr>"
        have inv': "cb_inv C ?b'" by (rule cb_inv_after_read [OF "1.prems" tr])
        have st: "read_loop C fl buffer dst sz bytes_read =
                  read_loop C fl ?b' dst' sz (bytes_read + to_read)"
          using True False Some
          by (subst read_loop.simps) (simp add: to_read_def case_prod_beta Let_def)
        have "case read_loop C fl ?b' dst' sz (bytes_read + to_read) of
                Read_done b' d m \<Rightarrow> cb_inv C b' | Read_waiting b' d m \<Rightarrow> cb_inv C b'
              | Read_fault \<Rightarrow> True"
          using True False Some inv'
          by (intro "1.IH" [where x = to_read
                and xa = "wrap_copy C (read_pos buffer) to_read"])
             (simp_all add: to_read_def prod_eq_iff)
        with st show ?thesis by simp
      qed
    qed
  qed
qed

lemma reachable_inv:
  assumes C: "0 < C"
  shows "reachable C b \<Longrightarrow> cb_inv C b"
proof (induction rule: reachable.induct)
  case (reach_init b)
  with C show ?case by (simp add: cb_inv_init)
next
  case (reach_written b fl src sz n b' m)
  with write_loop_inv [of C b fl src sz n] show ?case by simp
next
  case (reach_write_blocked b fl src sz n b' m)
  with write_loop_inv [of C b fl src sz n] show ?case by simp
next
  case (reach_read_done b fl dst sz n b' dst' m)
  with read_loop_inv [of C b fl dst sz n] show ?case by simp
next
  case (reach_read_waiting b fl dst sz n b' dst' m)
  with read_loop_inv [of C b fl dst sz n] show ?case by simp
qed

text \<open>A call woken from the timed wait leaves a buffer of the same kind.\<close>

lemma reach_read_wakeup:
  fixes fl :: flags
  assumes "reachable C b"
    and "read_wakeup C fl timed_out b dst sz n = Read_done b' dst' m \<or>
         read_wakeup C fl timed_out b dst sz n = Read_waiting b' dst' m"
  shows "reachable C b'"
  using assms
  by (auto simp: read_wakeup_def Let_def split: if_splits option.splits
      intro: reach_read_done reach_read_waiting)

lemma cb_inv_congruent:
  assumes "cb_inv C b"
  shows "(int (write_pos b) - int (read_pos b)) mod int C = int (size_cb b) mod int C"
proof -
  from assms have "int (write_pos b) = (int (read_pos b) + int (size_cb b)) mod int C"
    by (simp add: cb_inv_def zmod_int)
  then have "(int (write_pos b) - int (read_pos b)) mod int C =
             ((int (read_pos b) + int (size_cb b)) mod int C - int (read_pos b)) mod int C"
    by simp
  also have "\<dots> = (int (read_pos b) + int (size_cb b) - int (read_pos b)) mod int C"
    by (simp add: mod_diff_left_eq)
  finally show ?thesis by simp
qed

lemma write_loop_no_fault:
  assumes "cb_inv C b" "bw \<le> sz" "sz \<le> length src"
  shows "write_loop C fl b src sz bw \<noteq> Write_fault"
  using write_loop_contract [OF assms, of fl] by (auto split: if_splits)

lemma read_loop_no_fault:
  assumes inv: "cb_inv C b" and le: "br \<le> sz" and dst: "sz \<le> length dst"
  shows "read_loop C fl b dst sz br \<noteq> Read_fault"
proof (cases "br < sz \<and> keep_running fl")
  case False
  then show ?thesis by (simp add: read_loop_exit)
next
  case True
  show ?thesis
  proof (cases "size_cb b = 0")
    case empty: True
    with True dst show ?thesis
      by (cases "is_audio_playing fl") (simp_all add: read_loop_empty_idle read_loop_empty_playing)
  next
    case False
    then have "0 < size_cb b" by simp
    from read_loop_nonempty [OF inv _ _ this dst, of fl br] True show ?thesis
      by (simp split: if_splits)
  qed
qed

lemma read_timeouts_done [simp]:
  "read_timeouts C fl sz k (Read_done b d n) = Read_done b d n"
  by (cases k) simp_all




lemma int_of_size_t_small: "n < 2 ^ 31 \<Longrightarrow> int_of_size_t n = int n"
  by (simp add: int_of_size_t_def signed_of_nat signed_take_bit_int_eq_self)

lemma read_loop_gtk3_exit:
  "\<not> (br < sz \<and> keep_running fl) \<Longrightarrow> read_loop_gtk3 C fl b dst sz br = Read_done b dst br"
  by (subst read_loop_gtk3.simps) auto

lemma read_loop_gtk3_empty:
  "br < sz \<Longrightarrow> keep_running fl \<Longrightarrow> size_cb b = 0 \<Longrightarrow>
   read_loop_gtk3 C fl b dst sz br = Read_waiting b dst br"
  by (subst read_loop_gtk3.simps) simp

lemma BUFFER_SIZE_bounds:
  "0 < BUFFER_SIZE" "0 < BUFFER_SIZE_gtk3" "2 * BUFFER_SIZE < 2 ^ 64"
  by (simp_all add: BUFFER_SIZE_def BUFFER_SIZE_gtk3_def)

subsection \<open>What a parked call does when it wakes at shutdown\<close>

text \<open>
  Once woken with \<^verbatim>\<open>keep_running\<close> cleared, every loop returns without waiting again.
  Whether the wait ends is outside these functions: the timed wait of the GTK4 read ends
  by itself; the untimed waits (both writes, the GTK3 read) end on a signal, which only
  the opposite function sends after a copy.
\<close>

lemma woken_write_at_shutdown:
  "\<not> keep_running fl \<Longrightarrow> write_loop C fl b src sz bw = Written b bw"
  by (simp add: write_loop_exit)

lemma woken_read_at_shutdown:
  "\<not> keep_running fl \<Longrightarrow> read_wakeup C fl False b dst sz br = Read_done b dst br"
  "\<not> keep_running fl \<Longrightarrow> read_loop_gtk3 C fl b dst sz br = Read_done b dst br"
  by (simp_all add: read_wakeup_def read_loop_exit read_loop_gtk3_exit)

lemma timed_out_read_at_shutdown:
  "\<not> keep_running fl \<Longrightarrow> br + sz div 10 \<le> length dst \<Longrightarrow>
   read_wakeup C fl True b dst sz br =
     Read_done b (take br dst @ replicate (sz div 10) 0 @ drop (br + sz div 10) dst)
       (br + sz div 10)"
  by (simp add: read_wakeup_def read_loop_exit memset_def Let_def)

section \<open>The claims\<close>

text \<open>
  C1 (FIFO correctness). From an initialised buffer of capacity \<open>C\<close>, while the program
  runs, any sequence of write and read calls in which every write finds room for all its
  bytes and every read finds all the bytes it asks for goes through without a call
  parking, faulting or returning a short count, and the bytes the reads deliver, in
  order, are exactly the first bytes supplied to the writes, as many as were asked for:
  nothing lost, repeated or reordered, wrapped or not.
\<close>

theorem fifo_correctness:
  assumes "0 < C" "length (data b0) = C" "keep_running fl" "no_block C 0 cs"
  shows "run_calls C fl (init_circular_buffer b0) cs = Some (take (requested cs) (supplied cs))"
proof -
  have "size_cb (init_circular_buffer b0) = 0" by (simp add: init_circular_buffer_def)
  with run_calls_fifo [OF cb_inv_init [OF assms(1,2)] assms(3), of cs] assms(4)
  show ?thesis by (simp add: buffered_def)
qed

theorem fifo_correctness_witness:
  "no_block 16 0
     [Write_call [1, 2, 3, 4, 5, 6, 7, 8, 9, 10], Read_call [0, 0, 0, 0, 0, 0],
      Write_call [11, 12, 13, 14, 15, 16, 17, 18, 19, 20],
      Read_call [0, 0, 0, 0, 0, 0, 0, 0, 0, 0, 0, 0, 0, 0]] \<and>
   run_calls 16 \<lparr>keep_running = True, is_audio_playing = True\<rparr>
     (init_circular_buffer \<lparr>data = replicate 16 0, read_pos = 0, write_pos = 0, size_cb = 0\<rparr>)
     [Write_call [1, 2, 3, 4, 5, 6, 7, 8, 9, 10], Read_call [0, 0, 0, 0, 0, 0],
      Write_call [11, 12, 13, 14, 15, 16, 17, 18, 19, 20],
      Read_call [0, 0, 0, 0, 0, 0, 0, 0, 0, 0, 0, 0, 0, 0]] =
   Some [1, 2, 3, 4, 5, 6, 7, 8, 9, 10, 11, 12, 13, 14, 15, 16, 17, 18, 19, 20]"
  using fifo_correctness [of 16
     "\<lparr>data = replicate 16 0, read_pos = 0, write_pos = 0, size_cb = 0\<rparr>"
     "\<lparr>keep_running = True, is_audio_playing = True\<rparr>"
     "[Write_call [1, 2, 3, 4, 5, 6, 7, 8, 9, 10], Read_call [0, 0, 0, 0, 0, 0],
      Write_call [11, 12, 13, 14, 15, 16, 17, 18, 19, 20],
      Read_call [0, 0, 0, 0, 0, 0, 0, 0, 0, 0, 0, 0, 0, 0]]"]
  by simp

text \<open>
  C2 (ring-buffer state invariant). Every buffer the program can see, from
  \<^verbatim>\<open>init_circular_buffer\<close> on and after every return or park of a write or a read,
  has \<open>size \<le> C\<close>, both positions below \<open>C\<close>, the array of \<open>C\<close> bytes, and
  \<open>size\<close> congruent to \<open>write_pos - read_pos\<close> modulo \<open>C\<close>: no write moves
  \<open>write_pos\<close> past the free space and no read moves \<open>read_pos\<close> past the data.
\<close>

theorem ring_invariant:
  assumes "0 < C" "reachable C b"
  shows "size_cb b \<le> C \<and> read_pos b < C \<and> write_pos b < C \<and> length (data b) = C \<and>
         (int (write_pos b) - int (read_pos b)) mod int C = int (size_cb b) mod int C"
proof -
  have inv: "cb_inv C b" by (rule reachable_inv [OF assms])
  with cb_inv_congruent [OF inv] show ?thesis by (simp add: cb_inv_def)
qed

theorem ring_invariant_witness:
  "reachable 16 \<lparr>data = [17, 18, 19, 20, 5, 6, 7, 8, 9, 10, 11, 12, 13, 14, 15, 16],
                 read_pos = 6, write_pos = 4, size_cb = 14\<rparr> \<and>
   (14 :: nat) \<le> 16 \<and> (6 :: nat) < 16 \<and> (4 :: nat) < 16 \<and>
   (int 4 - int 6) mod int 16 = int 14 mod int 16"
proof -
  let ?fl = "\<lparr>keep_running = True, is_audio_playing = True\<rparr>"
  let ?b0 = "\<lparr>data = replicate 16 (0 :: uint8_t), read_pos = 0, write_pos = 0, size_cb = 0\<rparr>"
  let ?b1 = "\<lparr>data = [1, 2, 3, 4, 5, 6, 7, 8, 9, 10, 0, 0, 0, 0, 0, 0 :: uint8_t],
              read_pos = 0, write_pos = 10, size_cb = 10\<rparr>"
  let ?b2 = "\<lparr>data = [1, 2, 3, 4, 5, 6, 7, 8, 9, 10, 0, 0, 0, 0, 0, 0 :: uint8_t],
              read_pos = 6, write_pos = 10, size_cb = 4\<rparr>"
  let ?b3 = "\<lparr>data = [17, 18, 19, 20, 5, 6, 7, 8, 9, 10, 11, 12, 13, 14, 15, 16 :: uint8_t],
              read_pos = 6, write_pos = 4, size_cb = 14\<rparr>"
  have r0: "reachable 16 (init_circular_buffer ?b0)"
    by (rule reach_init) simp
  have "write_loop 16 ?fl (init_circular_buffer ?b0) [1, 2, 3, 4, 5, 6, 7, 8, 9, 10] 10 0 =
          Written ?b1 10"
    by code_simp
  from reach_written [OF r0 this] have r1: "reachable 16 ?b1" .
  have "read_loop 16 ?fl ?b1 [0, 0, 0, 0, 0, 0] 6 0 = Read_done ?b2 [1, 2, 3, 4, 5, 6] 6"
    by code_simp
  from reach_read_done [OF r1 this] have r2: "reachable 16 ?b2" .
  have "write_loop 16 ?fl ?b2 [11, 12, 13, 14, 15, 16, 17, 18, 19, 20] 10 0 = Written ?b3 10"
    by code_simp
  from reach_written [OF r2 this] have r3: "reachable 16 ?b3" .
  from ring_invariant [OF _ r3] r3 show ?thesis by simp
qed

text \<open>
  C3 (silence-fill on shutdown): what the code does. With \<open>keep_running = 0\<close> the loop
  guard \<^verbatim>\<open>bytes_read < size && keep_running\<close> fails before the empty-buffer test is
  reached, so a call for 4 bytes on an empty buffer returns 0 and leaves the caller's
  array as it was, in both programs. The branch that fills the rest with zeros and
  returns \<open>size\<close> tests \<^verbatim>\<open>!keep_running\<close> inside that loop: in the GTK3 program no
  run reaches it with the flag unchanged, in the GTK4 program only the
  \<^verbatim>\<open>!is_audio_playing\<close> half of its test can hold.
\<close>

theorem shutdown_read_short:
  "read_from_buffer 16 \<lparr>keep_running = False, is_audio_playing = True\<rparr>
     \<lparr>data = replicate 16 0, read_pos = 0, write_pos = 0, size_cb = 0\<rparr> [1, 2, 3, 4] 4 =
   Read_done \<lparr>data = replicate 16 0, read_pos = 0, write_pos = 0, size_cb = 0\<rparr> [1, 2, 3, 4] 0 \<and>
   read_from_buffer_gtk3 16 \<lparr>keep_running = False, is_audio_playing = True\<rparr>
     \<lparr>data = replicate 16 0, read_pos = 0, write_pos = 0, size_cb = 0\<rparr> [1, 2, 3, 4] 4 =
   Read_done \<lparr>data = replicate 16 0, read_pos = 0, write_pos = 0, size_cb = 0\<rparr> [1, 2, 3, 4] 0"
  by (simp add: read_from_buffer_def read_from_buffer_gtk3_def read_loop_exit read_loop_gtk3_exit)




text \<open>
  The same loop on requests it does not serve. Below 10 bytes
  \<^verbatim>\<open>size / 10\<close> is 0 and the call stays parked however many timeouts pass. When
  \<open>size div 10\<close> does not divide \<open>size\<close> and the caller's array has exactly \<open>size\<close>
  bytes, the last \<^verbatim>\<open>memset\<close> runs past its end.
\<close>

lemma small_request_keeps_waiting:
  assumes "keep_running fl" "is_audio_playing fl" "size_cb b = 0" "0 < sz" "sz < 10"
  shows "read_timeouts C fl sz k (read_from_buffer C fl b dst sz) = Read_waiting b dst 0"
proof -
  have w: "read_wakeup C fl True b dst sz 0 = Read_waiting b dst 0"
    using assms by (simp add: read_wakeup_def read_loop_empty_playing)
  have "read_timeouts C fl sz k (Read_waiting b dst 0) = Read_waiting b dst 0"
    by (induction k) (simp_all add: w)
  with assms show ?thesis by (simp add: read_from_buffer_def read_loop_empty_playing)
qed

lemma timeout_overruns_exact_destination:
  "read_timeouts 16 \<lparr>keep_running = True, is_audio_playing = True\<rparr> 25 13
     (read_from_buffer 16 \<lparr>keep_running = True, is_audio_playing = True\<rparr>
        \<lparr>data = replicate 16 0, read_pos = 3, write_pos = 3, size_cb = 0\<rparr>
        (replicate 25 7) 25) = Read_fault"
  by code_simp



text \<open>
  The GTK3 program has no test of \<^verbatim>\<open>is_audio_playing\<close> in \<^verbatim>\<open>read_from_buffer\<close>: there
  a read on an empty buffer parks whatever that flag is. Its playback thread calls the
  function only while playing.
\<close>

lemma read_gtk3_empty_parks:
  "0 < sz \<Longrightarrow> keep_running fl \<Longrightarrow> size_cb b = 0 \<Longrightarrow>
   read_from_buffer_gtk3 C fl b dst sz = Read_waiting b dst 0"
  by (simp add: read_from_buffer_gtk3_def read_loop_gtk3_empty)

text \<open>
  C6 (write contract). On a buffer that satisfies the invariant, a call that has written
  \<open>bw\<close> of its \<open>sz\<close> bytes (\<open>bw = 0\<close> for \<^verbatim>\<open>write_to_buffer\<close> itself, more for a call
  woken from its wait) copies \<open>k\<close> more bytes, the smaller of what is left and what is
  free (none when shutting down), appended to the buffered bytes, in two segments exactly
  when they do not fit before the end of the array. It then parks when the program runs
  and bytes are left, the buffer being full; otherwise it returns, and the count it
  returns is \<open>sz\<close> unless the program is shutting down.
\<close>

theorem write_contract:
  fixes fl :: "'a flags_scheme"
  assumes "cb_inv C b" "bw \<le> sz" "sz \<le> length src"
  defines "k \<equiv> (if keep_running fl then min (sz - bw) (C - size_cb b) else 0)"
  shows "\<exists>b'. write_loop C fl b src sz bw =
                 (if keep_running fl \<and> bw + k < sz then Write_blocked b' (bw + k)
                  else Written b' (bw + k)) \<and>
              buffered C b' = buffered C b @ take k (drop bw src) \<and>
              size_cb b' = size_cb b + k \<and> read_pos b' = read_pos b \<and> cb_inv C b' \<and>
              (keep_running fl \<and> bw + k < sz \<longrightarrow> size_cb b' = C) \<and>
              (0 < k \<longrightarrow> fst (wrap_copy C (write_pos b) k) =
                 (if k \<le> C - write_pos b then [(write_pos b, 0, k)]
                  else [(write_pos b, 0, C - write_pos b),
                        (0, C - write_pos b, k - (C - write_pos b))]))"
proof -
  have n: "(if keep_running fl then bw + min (sz - bw) (C - size_cb b) else bw) = bw + k"
    by (simp add: k_def)
  have seg: "fst (wrap_copy C (write_pos b) k) =
                 (if k \<le> C - write_pos b then [(write_pos b, 0, k)]
                  else [(write_pos b, 0, C - write_pos b),
                        (0, C - write_pos b, k - (C - write_pos b))])"
    using assms(1) by (simp add: wrap_copy_def cb_inv_size_t_sub Let_def)
  from write_loop_contract [OF assms(1-3), of fl] obtain b' where
    "write_loop C fl b src sz bw =
       (if keep_running fl \<and> bw + k < sz then Write_blocked b' (bw + k)
        else Written b' (bw + k))"
    "cb_inv C b'" "buffered C b' = buffered C b @ take k (drop bw src)"
    "size_cb b' = size_cb b + k" "keep_running fl \<and> bw + k < sz \<longrightarrow> size_cb b' = C"
    "read_pos b' = read_pos b"
    unfolding n by auto
  with seg show ?thesis by blast
qed

theorem write_contract_witness:
  "cb_inv 16 \<lparr>data = [1, 2, 3, 4, 5, 6, 7, 8, 9, 10, 0, 0, 0, 0, 0, 0], read_pos = 6,
            write_pos = 10, size_cb = 4\<rparr> \<and>
   (\<exists>b'. write_loop 16 \<lparr>keep_running = True, is_audio_playing = True\<rparr>
           \<lparr>data = [1, 2, 3, 4, 5, 6, 7, 8, 9, 10, 0, 0, 0, 0, 0, 0], read_pos = 6,
            write_pos = 10, size_cb = 4\<rparr>
           [11, 12, 13, 14, 15, 16, 17, 18, 19, 20, 21, 22, 23, 24] 14 0 = Write_blocked b' 12 \<and>
         buffered 16 b' = [7, 8, 9, 10, 11, 12, 13, 14, 15, 16, 17, 18, 19, 20, 21, 22] \<and>
         size_cb b' = 16)"
proof -
  let ?b = "\<lparr>data = [1, 2, 3, 4, 5, 6, 7, 8, 9, 10, 0, 0, 0, 0, 0, 0 :: uint8_t], read_pos = 6,
            write_pos = 10, size_cb = 4\<rparr>"
  have inv: "cb_inv 16 ?b" by (simp add: cb_inv_def)
  have buf: "buffered 16 ?b = [7, 8, 9, 10]" by code_simp
  from write_contract [OF inv, of 0 14 "[11, 12, 13, 14, 15, 16, 17, 18, 19, 20, 21, 22, 23, 24]"
      "\<lparr>keep_running = True, is_audio_playing = True\<rparr>"] inv
  show ?thesis by (simp add: buf) blast
qed

text \<open>
  C7 (wrap-around copy safety). For a transfer of \<open>n \<le> C\<close> bytes at the write or the
  read position of a buffer that satisfies the invariant, the first chunk is \<open>C - pos\<close>,
  there is one segment exactly when \<open>n\<close> fits in it and two otherwise, and every segment
  ends within the array. Neither loop ever copies out of bounds, of the ring or of a
  caller's array of at least \<open>sz\<close> bytes.
\<close>

theorem wrap_copy_safe:
  assumes "cb_inv C b" "n \<le> C" "pos = write_pos b \<or> pos = read_pos b"
  shows "fst (wrap_copy C pos n) =
           (if n \<le> C - pos then [(pos, 0, n)]
            else [(pos, 0, C - pos), (0, C - pos, n - (C - pos))]) \<and>
         (\<forall>(p, off, len) \<in> set (fst (wrap_copy C pos n)). p + len \<le> C) \<and>
         (bw \<le> sz \<and> sz \<le> length src \<longrightarrow> write_loop C fl b src sz bw \<noteq> Write_fault) \<and>
         (br \<le> sz \<and> sz \<le> length dst \<longrightarrow> read_loop C fl b dst sz br \<noteq> Read_fault)"
proof -
  from assms have pos: "pos < C" by (auto simp: cb_inv_def)
  then have sub: "size_t_sub C pos = C - pos" by simp
  have seg: "fst (wrap_copy C pos n) =
           (if n \<le> C - pos then [(pos, 0, n)]
            else [(pos, 0, C - pos), (0, C - pos, n - (C - pos))])"
    by (simp add: wrap_copy_def sub Let_def)
  have bound: "\<forall>(p, off, len) \<in> set (fst (wrap_copy C pos n)). p + len \<le> C"
    unfolding seg using pos assms(2) by auto
  from seg bound write_loop_no_fault [OF assms(1)] read_loop_no_fault [OF assms(1)]
  show ?thesis by blast
qed

theorem wrap_copy_safe_witness:
  "cb_inv 16 \<lparr>data = [1, 2, 3, 4, 5, 6, 7, 8, 9, 10, 0, 0, 0, 0, 0, 0], read_pos = 6,
            write_pos = 10, size_cb = 4\<rparr> \<and>
   fst (wrap_copy 16 10 12) = [(10, 0, 6), (0, 6, 6)] \<and>
   write_loop 16 \<lparr>keep_running = True, is_audio_playing = True\<rparr>
           \<lparr>data = [1, 2, 3, 4, 5, 6, 7, 8, 9, 10, 0, 0, 0, 0, 0, 0], read_pos = 6,
            write_pos = 10, size_cb = 4\<rparr>
           [11, 12, 13, 14, 15, 16, 17, 18, 19, 20, 21, 22, 23, 24] 14 0 \<noteq> Write_fault \<and>
   read_loop 16 \<lparr>keep_running = True, is_audio_playing = True\<rparr>
           \<lparr>data = [1, 2, 3, 4, 5, 6, 7, 8, 9, 10, 0, 0, 0, 0, 0, 0], read_pos = 6,
            write_pos = 10, size_cb = 4\<rparr> [0, 0, 0, 0, 0, 0] 6 0 \<noteq> Read_fault"
proof -
  let ?b = "\<lparr>data = [1, 2, 3, 4, 5, 6, 7, 8, 9, 10, 0, 0, 0, 0, 0, 0 :: uint8_t], read_pos = 6,
            write_pos = 10, size_cb = 4\<rparr>"
  have inv: "cb_inv 16 ?b" by (simp add: cb_inv_def)
  from wrap_copy_safe [OF inv, where n = 12 and pos = 10 and bw = 0 and sz = 14
      and src = "[11, 12, 13, 14, 15, 16, 17, 18, 19, 20, 21, 22, 23, 24]"
      and fl = "\<lparr>keep_running = True, is_audio_playing = True\<rparr>"]
    wrap_copy_safe [OF inv, where n = 12 and pos = 10 and br = 0 and sz = 6
      and dst = "[0, 0, 0, 0, 0, 0]"
      and fl = "\<lparr>keep_running = True, is_audio_playing = True\<rparr>"] inv
  show ?thesis by simp
qed




text \<open>
  C10 (stop does not flush the buffer). \<^verbatim>\<open>play_audio\<close> and \<^verbatim>\<open>stop_audio\<close> leave the
  buffer and \<^verbatim>\<open>keep_running\<close> as they are; so after a stop and a restart, a read of
  \<open>sz > 0\<close> bytes on a buffer that held data delivers the oldest \<open>min sz size\<close> buffered
  bytes first, removes them from the buffer, and returns if that is all it asked for and
  parks for more otherwise.
\<close>

theorem stop_keeps_buffer:
  assumes "cb_inv C (audio_buffer g)" "0 < size_cb (audio_buffer g)" "keep_running g"
    "0 < sz" "sz \<le> length dst"
  defines "g' \<equiv> play_audio (stop_audio g)"
  defines "k \<equiv> min sz (size_cb (audio_buffer g))"
  shows "audio_buffer (stop_audio g) = audio_buffer g \<and>
         audio_buffer (play_audio g) = audio_buffer g \<and>
         keep_running (stop_audio g) = keep_running g \<and>
         keep_running (play_audio g) = keep_running g \<and>
         (\<exists>b' dst'. read_from_buffer C g' (audio_buffer g') dst sz =
                      (if sz \<le> size_cb (audio_buffer g) then Read_done b' dst' sz
                       else Read_waiting b' dst' (size_cb (audio_buffer g))) \<and>
                    take k dst' = take k (buffered C (audio_buffer g)) \<and>
                    buffered C b' = drop k (buffered C (audio_buffer g)))"
proof -
  let ?b = "audio_buffer g"
  have ab: "audio_buffer g' = ?b" and kr: "keep_running g'" and pl: "is_audio_playing g'"
    using assms(3) by (simp_all add: g'_def play_audio_def stop_audio_def)
  define b' where "b' = ?b\<lparr>read_pos := (read_pos ?b + k) mod C, size_cb := size_cb ?b - k\<rparr>"
  define dst' where "dst' = take k (buffered C ?b) @ drop k dst"
  have k0: "min (sz - 0) (size_cb ?b) = k" by (simp add: k_def)
  have "read_loop C g' ?b dst sz 0 =
             (if k = sz then Read_done b' dst' sz else Read_waiting b' dst' k)"
    using read_loop_nonempty [OF assms(1) kr assms(4) assms(2) assms(5)] pl
    unfolding k0 b'_def dst'_def by simp
  then have r: "read_from_buffer C g' (audio_buffer g') dst sz =
             (if k = sz then Read_done b' dst' sz else Read_waiting b' dst' k)"
    by (simp add: read_from_buffer_def ab)
  have r': "read_from_buffer C g' (audio_buffer g') dst sz =
                      (if sz \<le> size_cb ?b then Read_done b' dst' sz
                       else Read_waiting b' dst' (size_cb ?b))"
    unfolding r by (auto simp: k_def min_def)
  have t: "take k dst' = take k (buffered C ?b)"
    by (simp add: dst'_def k_def)
  have d: "buffered C b' = drop k (buffered C ?b)"
    using read_iter(3) [OF assms(1) kr assms(4) assms(2) assms(5)]
    unfolding k0 b'_def by simp
  from r' t d show ?thesis
    by (auto simp: play_audio_def stop_audio_def)
qed

theorem stop_keeps_buffer_witness:
  "cb_inv 16 \<lparr>data = [1, 2, 3, 4, 5, 6, 7, 8, 9, 10, 0, 0, 0, 0, 0, 0], read_pos = 6,
            write_pos = 10, size_cb = 4\<rparr> \<and>
   (\<exists>b' dst'.
     read_from_buffer 16
       (play_audio (stop_audio \<lparr>keep_running = True, is_audio_playing = True,
          audio_buffer = \<lparr>data = [1, 2, 3, 4, 5, 6, 7, 8, 9, 10, 0, 0, 0, 0, 0, 0],
                           read_pos = 6, write_pos = 10, size_cb = 4\<rparr>\<rparr>))
       (audio_buffer (play_audio (stop_audio \<lparr>keep_running = True, is_audio_playing = True,
          audio_buffer = \<lparr>data = [1, 2, 3, 4, 5, 6, 7, 8, 9, 10, 0, 0, 0, 0, 0, 0],
                           read_pos = 6, write_pos = 10, size_cb = 4\<rparr>\<rparr>)))
       [0, 0, 0, 0, 0, 0] 6 = Read_waiting b' dst' 4 \<and>
     take 4 dst' = [7, 8, 9, 10] \<and> buffered 16 b' = [])"
proof -
  let ?b = "\<lparr>data = [1, 2, 3, 4, 5, 6, 7, 8, 9, 10, 0, 0, 0, 0, 0, 0 :: uint8_t], read_pos = 6,
            write_pos = 10, size_cb = 4\<rparr>"
  let ?g = "\<lparr>keep_running = True, is_audio_playing = True, audio_buffer = ?b\<rparr>"
  have inv: "cb_inv 16 (audio_buffer ?g)" by (simp add: cb_inv_def)
  have buf: "buffered 16 ?b = [7, 8, 9, 10]" by code_simp
  from stop_keeps_buffer [OF inv, of 6 "[0, 0, 0, 0, 0, 0]"] inv
  show ?thesis by (simp add: buf)
qed

end
